theory Spec2Isabelle
  imports Main "HOL-Library.Word" "HOL-Library.AList"
begin

section \<open>Spark request tracking (libs/spark/src/TrackingService.cpp)\<close>

subsection \<open>Data\<close>

text \<open>
  A \<open>boost::uuids::uuid\<close> is 128 bits. A \<open>Link\<close> is known to the sources through its
  \<open>uuid\<close> member and its comparison operators only; it is identified by that uuid.
  Of a \<open>Message\<close> the tracking service reads \<open>message.token.uuid\<close> only; the rest is
  carried as opaque bytes.
\<close>

type_synonym uuid = "128 word"

record Link =
  uuid :: uuid

record Message =
  token :: uuid
  data :: "8 word list"

text \<open>
  A \<open>TrackingHandler\<close> is a \<open>std::function\<close> taking a link and an optional message. The
  service never looks inside it, it only calls it: a handler is a name here, and each
  call is written to a list of invocations.
\<close>

type_synonym TrackingHandler = nat

text \<open>
  \<open>boost::system::error_code\<close>: \<open>if(ec)\<close> tests for a value other than zero. A wait
  that is cancelled completes with \<open>operation_aborted\<close> (the platform's \<open>ECANCELED\<close>).
\<close>

type_synonym error_code = int

definition success :: error_code where
  "success = 0"

definition operation_aborted :: error_code where
  "operation_aborted = 125"

text \<open>
  The \<open>io_service\<close> holds the asynchronous waits started on its timers. A wait carries
  the arguments bound by \<open>std::bind(&TrackingService::timeout, this, id, link, _1)\<close>. It is
  \<open>Waiting\<close> until the deadline passes or the timer is cancelled or destroyed; then its
  completion handler is queued with the error code it will be given (\<open>Ready ec\<close>), and
  once the handler has run the wait is \<open>Done\<close>. A completion that is already queued is
  not changed by a later cancellation.
\<close>

datatype wait_state = Waiting | Ready error_code | Done

record wait_op =
  bound_id :: uuid
  bound_link :: Link
  state :: wait_state

type_synonym io_service = "wait_op list"

text \<open>A timer is its expiry (milliseconds from the arming) and its wait in the \<open>io_service\<close>.\<close>

record Timer =
  expiry :: int
  wait :: nat

text \<open>\<open>Request(service_, id, link, handler)\<close>: the timer and the three values kept
  (the member \<open>id\<close> is \<open>id'\<close> here).\<close>

record Request =
  timer :: Timer
  id' :: uuid
  link :: Link
  handler :: TrackingHandler

datatype severity = TRACE | DEBUG | WARN

text \<open>One call \<open>handler->handler(link, message)\<close>: the token whose record was taken out of
  the table, the function called and its two arguments (\<open>None\<close> is \<open>boost::none\<close>).\<close>

record Invocation =
  tracked :: uuid
  callee :: TrackingHandler
  arg_link :: Link
  arg_message :: "Message option"

text \<open>
  The service: its \<open>io_service\<close>, what was handed to its logger, and the table
  of pending requests (the members \<open>service_\<close>, \<open>logger_\<close> and \<open>handlers_\<close>, written
  without the last character here). The table is a keyed container
  (\<open>at\<close>, \<open>erase\<close>, \<open>operator[]\<close> and iteration over its pairs are used). \<open>invoked\<close> lists the handler calls made so far, in order.
\<close>

record TrackingService =
  service :: io_service
  logger :: "(severity \<times> string) list"
  handlers :: "(uuid \<times> Request) list"
  invoked :: "Invocation list"

datatype exn = out_of_range

subsection \<open>Timers\<close>

definition cancel :: "Timer \<Rightarrow> io_service \<Rightarrow> io_service" where
  "cancel t svc =
     (if wait t < length svc \<and> state (svc ! wait t) = Waiting
      then svc[wait t := (svc ! wait t)\<lparr>state := Ready operation_aborted\<rparr>]
      else svc)"

definition expire :: "nat \<Rightarrow> io_service \<Rightarrow> io_service" where
  "expire n svc =
     (if n < length svc \<and> state (svc ! n) = Waiting
      then svc[n := (svc ! n)\<lparr>state := Ready success\<rparr>]
      else svc)"

text \<open>Destroying a \<open>Request\<close> destroys its timer, which cancels the wait outstanding on it.\<close>

definition destroy :: "Request \<Rightarrow> TrackingService \<Rightarrow> TrackingService" where
  "destroy r s = s\<lparr>service := cancel (timer r) (service s)\<rparr>"

definition log :: "severity \<Rightarrow> string \<Rightarrow> TrackingService \<Rightarrow> TrackingService" where
  "log sev txt s = s\<lparr>logger := logger s @ [(sev, txt)]\<rparr>"

definition invoke ::
  "uuid \<Rightarrow> Request \<Rightarrow> Link \<Rightarrow> Message option \<Rightarrow> TrackingService \<Rightarrow> TrackingService" where
  "invoke k r l m s =
     s\<lparr>invoked := invoked s @
        [\<lparr>tracked = k, callee = handler r, arg_link = l, arg_message = m\<rparr>]\<rparr>"

subsection \<open>Operations\<close>

text \<open>
  Each operation returns \<open>Inr\<close> of the new state, or \<open>Inl\<close> of the exception that leaves
  it. \<open>on_message\<close> is a function-try-block: the \<open>std::out_of_range\<close> of \<open>handlers_.at\<close>
  is caught and logged. The \<open>Request\<close> moved out of the table is destroyed when the
  function returns.
\<close>

definition on_message :: "Link \<Rightarrow> Message \<Rightarrow> TrackingService \<Rightarrow> exn + TrackingService" where
  "on_message l message s =
     (let s1 = log TRACE ''on_message'' s in
      case map_of (handlers s1) (token message) of
        None \<Rightarrow> Inr (log DEBUG ''[spark] Received invalid or expired tracked message'' s1)
      | Some h \<Rightarrow>
          let s2 = s1\<lparr>handlers := AList.delete (token message) (handlers s1)\<rparr> in
          if l \<noteq> link h
          then Inr (destroy h (log WARN ''[spark] Tracked message receipient != sender'' s2))
          else Inr (destroy h (invoke (token message) h l (Some message) s2)))"

text \<open>
  \<open>register_tracked\<close>: the new request's timer is armed before the table is written.
  \<open>handlers_[id] = std::move(request)\<close> replaces, and so destroys, a request already
  stored under \<open>id\<close>.
\<close>

definition register_tracked ::
  "Link \<Rightarrow> uuid \<Rightarrow> TrackingHandler \<Rightarrow> int \<Rightarrow> TrackingService \<Rightarrow> exn + TrackingService" where
  "register_tracked l i h timeout_ms s =
     (let s1 = log TRACE ''register_tracked'' s;
          request = \<lparr>timer = \<lparr>expiry = timeout_ms, wait = length (service s1)\<rparr>,
                     id' = i, link = l, handler = h\<rparr>;
          s2 = s1\<lparr>service := service s1 @ [\<lparr>bound_id = i, bound_link = l, state = Waiting\<rparr>]\<rparr>;
          s3 = (case map_of (handlers s2) i of None \<Rightarrow> s2 | Some old \<Rightarrow> destroy old s2)
      in Inr (s3\<lparr>handlers := AList.update i request (handlers s3)\<rparr>))"

text \<open>\<open>timeout\<close> has no handler for the \<open>std::out_of_range\<close> of \<open>handlers_.at(id)\<close>.\<close>

definition timeout :: "uuid \<Rightarrow> Link \<Rightarrow> error_code \<Rightarrow> TrackingService \<Rightarrow> exn + TrackingService" where
  "timeout i l ec s =
     (if ec \<noteq> 0 then Inr s
      else case map_of (handlers s) i of
        None \<Rightarrow> Inl out_of_range
      | Some h \<Rightarrow>
          Inr (destroy h (invoke i h l None (s\<lparr>handlers := AList.delete i (handlers s)\<rparr>))))"

definition shutdown :: "TrackingService \<Rightarrow> exn + TrackingService" where
  "shutdown s =
     Inr (s\<lparr>service := fold (\<lambda>(k, r). cancel (timer r)) (handlers s) (service s)\<rparr>)"

definition on_link_up :: "Link \<Rightarrow> TrackingService \<Rightarrow> exn + TrackingService" where
  "on_link_up l s = Inr s"

definition on_link_down :: "Link \<Rightarrow> TrackingService \<Rightarrow> exn + TrackingService" where
  "on_link_down l s = Inr s"

subsection \<open>Runs\<close>

text \<open>
  What happens to a service: a call of one of its operations, the deadline of a wait
  passing (\<open>Expire\<close>), or the \<open>io_service\<close> running a queued completion handler
  (\<open>Deliver\<close>), which calls \<open>timeout\<close> with the bound token and link and the queued code.
\<close>

datatype event =
    Register Link uuid TrackingHandler int
  | OnMessage Link Message
  | Timeout uuid Link error_code
  | Shutdown
  | LinkUp Link
  | LinkDown Link
  | Expire nat
  | Deliver nat

definition deliver :: "nat \<Rightarrow> TrackingService \<Rightarrow> exn + TrackingService" where
  "deliver n s =
     (if n < length (service s)
      then (case state (service s ! n) of
              Ready ec \<Rightarrow>
                timeout (bound_id (service s ! n)) (bound_link (service s ! n)) ec
                  (s\<lparr>service := (service s)[n := (service s ! n)\<lparr>state := Done\<rparr>]\<rparr>)
            | _ \<Rightarrow> Inr s)
      else Inr s)"

fun step :: "event \<Rightarrow> TrackingService \<Rightarrow> exn + TrackingService" where
  "step (Register l i h t) s = register_tracked l i h t s"
| "step (OnMessage l m) s = on_message l m s"
| "step (Timeout i l ec) s = timeout i l ec s"
| "step Shutdown s = shutdown s"
| "step (LinkUp l) s = on_link_up l s"
| "step (LinkDown l) s = on_link_down l s"
| "step (Expire n) s = Inr (s\<lparr>service := expire n (service s)\<rparr>)"
| "step (Deliver n) s = deliver n s"

text \<open>A run stops at the first exception that leaves an operation; it returns that
  exception, if any, and the state reached.\<close>

fun run :: "event list \<Rightarrow> TrackingService \<Rightarrow> exn option \<times> TrackingService" where
  "run [] s = (None, s)"
| "run (e # es) s = (case step e s of Inl x \<Rightarrow> (Some x, s) | Inr s' \<Rightarrow> run es s')"

definition initial :: TrackingService where
  "initial = \<lparr>service = [], logger = [], handlers = [], invoked = []\<rparr>"

fun registers :: "uuid \<Rightarrow> event \<Rightarrow> bool" where
  "registers t (Register l i h d) = (i = t)"
| "registers t _ = False"

definition calls_for :: "uuid \<Rightarrow> TrackingService \<Rightarrow> Invocation list" where
  "calls_for t s = filter (\<lambda>c. tracked c = t) (invoked s)"

definition pending :: "uuid \<Rightarrow> TrackingService \<Rightarrow> Request option" where
  "pending t s = map_of (handlers s) t"

text \<open>The calls for \<open>t\<close> made with \<open>boost::none\<close>: its timeout callbacks.\<close>

definition timeout_calls_for :: "uuid \<Rightarrow> TrackingService \<Rightarrow> Invocation list" where
  "timeout_calls_for t s = filter (\<lambda>c. tracked c = t \<and> arg_message c = None) (invoked s)"

text \<open>A call that completes the request \<open>r\<close> pending under \<open>t\<close>: it is made to \<open>r\<close>'s
  handler, with \<open>boost::none\<close> or with a message carrying \<open>t\<close> on \<open>r\<close>'s link.\<close>

definition completion :: "uuid \<Rightarrow> Request \<Rightarrow> Invocation \<Rightarrow> bool" where
  "completion t r c =
     (tracked c = t \<and> callee c = handler r \<and>
      (case arg_message c of None \<Rightarrow> True | Some m \<Rightarrow> token m = t \<and> arg_link c = link r))"

text \<open>The events that take the record of \<open>t\<close> out of the table, when there is one.\<close>

fun removes :: "uuid \<Rightarrow> event \<Rightarrow> TrackingService \<Rightarrow> bool" where
  "removes t (OnMessage l m) s = (token m = t)"
| "removes t (Timeout i l ec) s = (i = t \<and> ec = 0)"
| "removes t (Deliver n) s =
     (n < length (service s) \<and> bound_id (service s ! n) = t \<and> state (service s ! n) = Ready 0)"
| "removes t _ s = False"

text \<open>How often, along a run, the record of \<open>t\<close> goes from pending to absent.\<close>

fun consumed :: "uuid \<Rightarrow> event list \<Rightarrow> TrackingService \<Rightarrow> nat" where
  "consumed t [] s = 0"
| "consumed t (e # es) s =
     (case step e s of
        Inl x \<Rightarrow> 0
      | Inr s' \<Rightarrow>
          (if pending t s \<noteq> None \<and> pending t s' = None then 1 else 0) + consumed t es s')"

text \<open>The states of the waits bound to \<open>t\<close>.\<close>

definition waits_of :: "uuid \<Rightarrow> TrackingService \<Rightarrow> wait_state list" where
  "waits_of t s = map state (filter (\<lambda>w. bound_id w = t) (service s))"

text \<open>Events other than a direct call of \<open>timeout\<close>: in the program \<open>timeout\<close> is only
  ever called by the \<open>io_service\<close>, as the completion handler of a wait.\<close>

fun io_driven :: "event \<Rightarrow> bool" where
  "io_driven (Timeout i l ec) = False"
| "io_driven _ = True"

text \<open>A message that carries the token \<open>t\<close> and arrives on a link other than \<open>l\<close>.\<close>

fun crosses :: "uuid \<Rightarrow> Link \<Rightarrow> event \<Rightarrow> bool" where
  "crosses t l (OnMessage l' m) = (token m = t \<and> l' \<noteq> l)"
| "crosses t l _ = False"

text \<open>The two link notifications.\<close>

fun link_event :: "event \<Rightarrow> bool" where
  "link_event (LinkUp l) = True"
| "link_event (LinkDown l) = True"
| "link_event _ = False"

text \<open>Every wait still outstanding belongs to the timer of the request pending under the
  token it is bound to.\<close>

definition owned :: "TrackingService \<Rightarrow> bool" where
  "owned s =
     (\<forall>n<length (service s). state (service s ! n) = Waiting \<longrightarrow>
        (case pending (bound_id (service s ! n)) s of
           None \<Rightarrow> False
         | Some r \<Rightarrow> wait (timer r) = n))"

text \<open>The timer of every pending request has its wait in the \<open>io_service\<close>.\<close>

definition bounded :: "TrackingService \<Rightarrow> bool" where
  "bounded s = (\<forall>k r. pending k s = Some r \<longrightarrow> wait (timer r) < length (service s))"

text \<open>No wait bound to \<open>t\<close> is outstanding or queued as expired: no completion handler
  still to run will call \<open>timeout\<close> for \<open>t\<close> with a clear error code.\<close>

definition quiet :: "uuid \<Rightarrow> TrackingService \<Rightarrow> bool" where
  "quiet t s =
     (\<forall>n<length (service s). bound_id (service s ! n) = t \<longrightarrow>
        state (service s ! n) \<noteq> Waiting \<and> state (service s ! n) \<noteq> Ready 0)"

subsection \<open>Two links, a token and its response\<close>

definition linkA :: Link where
  "linkA = \<lparr>uuid = 10\<rparr>"

definition linkB :: Link where
  "linkB = \<lparr>uuid = 11\<rparr>"

definition reply :: Message where
  "reply = \<lparr>token = 1, data = []\<rparr>"

definition requestA :: Request where
  "requestA = \<lparr>timer = \<lparr>expiry = 50, wait = 0\<rparr>, id' = 1, link = linkA, handler = 7\<rparr>"

text \<open>The service after \<open>register_tracked(linkA, 1, 7, 50ms)\<close> on a new service.\<close>

definition awaiting :: TrackingService where
  "awaiting =
     \<lparr>service = [\<lparr>bound_id = 1, bound_link = linkA, state = Waiting\<rparr>],
      logger = [(TRACE, ''register_tracked'')],
      handlers = [(1, requestA)],
      invoked = []\<rparr>"

section \<open>Realm status messages (login/RealmService.cpp)\<close>

text \<open>
  A \<open>RealmStatus\<close> table as its accessors give it: \<open>name()\<close> and \<open>ip()\<close> return a pointer
  that is null when the field is absent, \<open>id()\<close> a number that is zero when it is. The
  other fields are copied and never computed with.
\<close>

record RealmStatus =
  msg_id :: "32 word"
  msg_name :: "string option"
  msg_ip :: "string option"
  msg_population :: nat
  msg_type :: nat
  msg_flags :: nat
  msg_timezone :: nat

record Realm =
  realm_id :: "32 word"
  realm_ip :: string
  realm_name :: string
  realm_population :: nat
  realm_type :: nat
  realm_flags :: nat
  realm_timezone :: nat

text \<open>
  The service's realm list and its map from link to realm. \<open>RealmList\<close> is declared
  outside these sources: \<open>add_realm\<close> is taken to store the realm under its id, where
  \<open>get_realm(id)\<close> of \<open>mark_realm_offline\<close> reads it back.
\<close>

record RealmService =
  realms :: "32 word \<rightharpoonup> Realm"
  known_realms :: "uuid \<rightharpoonup> 32 word"
  realm_log :: "(severity \<times> string) list"

definition add_realm :: "Realm \<Rightarrow> (32 word \<rightharpoonup> Realm) \<Rightarrow> (32 word \<rightharpoonup> Realm)" where
  "add_realm realm rs = rs(realm_id realm \<mapsto> realm)"

datatype fault = null_dereference

text \<open>
  \<open>handle_realm_status\<close>: the check of the three fields logs and goes on; \<open>ip()->str()\<close>
  and \<open>name()->str()\<close> then read through the pointers, in this order.
\<close>

definition handle_realm_status :: "Link \<Rightarrow> RealmStatus \<Rightarrow> RealmService \<Rightarrow> fault + RealmService" where
  "handle_realm_status l msg s =
     (let s1 = s\<lparr>realm_log := realm_log s @ [(TRACE, ''handle_realm_status'')]\<rparr>;
          s2 = (if msg_name msg = None \<or> msg_id msg = 0 \<or> msg_ip msg = None
                then s1\<lparr>realm_log := realm_log s1 @ [(DEBUG, ''Failed'')]\<rparr>
                else s1)
      in case msg_ip msg of
           None \<Rightarrow> Inl null_dereference
         | Some ip \<Rightarrow>
             (case msg_name msg of
                None \<Rightarrow> Inl null_dereference
              | Some name \<Rightarrow>
                  let realm = \<lparr>realm_id = msg_id msg, realm_ip = ip, realm_name = name,
                               realm_population = msg_population msg,
                               realm_type = msg_type msg, realm_flags = msg_flags msg,
                               realm_timezone = msg_timezone msg\<rparr>
                  in Inr (s2\<lparr>realms := add_realm realm (realms s2),
                              known_realms := (known_realms s2)(uuid l \<mapsto> msg_id msg)\<rparr>)))"

definition no_realms :: RealmService where
  "no_realms = \<lparr>realms = Map.empty, known_realms = Map.empty, realm_log = []\<rparr>"

definition nameless :: RealmStatus where
  "nameless = \<lparr>msg_id = 1, msg_name = None, msg_ip = Some ''10.0.0.1'', msg_population = 0,
                msg_type = 0, msg_flags = 0, msg_timezone = 0\<rparr>"

definition idless :: RealmStatus where
  "idless = \<lparr>msg_id = 0, msg_name = Some ''realm'', msg_ip = Some ''10.0.0.1'',
              msg_population = 0, msg_type = 0, msg_flags = 0, msg_timezone = 0\<rparr>"

section \<open>Properties of the tracking service\<close>

subsection \<open>The table\<close>

lemma map_of_delete_conv: "map_of (AList.delete k al) = (map_of al)(k := None)"
  by (rule ext) (simp add: delete_conv)

lemma map_of_update_conv: "map_of (AList.update k v al) = (map_of al)(k \<mapsto> v)"
  by (rule update_conv')

lemmas op_defs = on_message_def register_tracked_def timeout_def shutdown_def
  on_link_up_def on_link_down_def deliver_def log_def destroy_def invoke_def Let_def

lemmas example_defs = initial_def linkA_def linkB_def reply_def requestA_def
  cancel_def expire_def success_def operation_aborted_def

subsection \<open>One event\<close>

lemma step_absent:
  assumes "pending t s = None" "\<not> registers t e" "step e s = Inr s'"
  shows "pending t s' = None \<and> calls_for t s' = calls_for t s"
  using assms
  by (cases e)
     (auto simp: pending_def calls_for_def op_defs map_of_delete_conv map_of_update_conv
           split: option.splits if_splits wait_state.splits)

lemma step_present:
  assumes "pending t s = Some r" "\<not> registers t e" "step e s = Inr s'"
  shows "(pending t s' = Some r \<and> calls_for t s' = calls_for t s) \<or>
         (pending t s' = None \<and>
            (calls_for t s' = calls_for t s \<or>
             (\<exists>c. calls_for t s' = calls_for t s @ [c] \<and> completion t r c)))"
  using assms
  by (cases e)
     (auto simp: pending_def calls_for_def completion_def op_defs map_of_delete_conv
                 map_of_update_conv
           split: option.splits if_splits wait_state.splits)

subsection \<open>Runs\<close>

lemma run_absent:
  assumes "pending t s = None" "\<forall>e\<in>set es. \<not> registers t e"
  shows "pending t (snd (run es s)) = None \<and> calls_for t (snd (run es s)) = calls_for t s"
  using assms
proof (induction es arbitrary: s)
  case Nil
  then show ?case by simp
next
  case (Cons e es)
  show ?case
  proof (cases "step e s")
    case (Inl x)
    with Cons.prems show ?thesis by simp
  next
    case (Inr s')
    from Cons.prems have ne: "\<not> registers t e" by simp
    have "pending t s' = None \<and> calls_for t s' = calls_for t s"
      by (rule step_absent [OF Cons.prems(1) ne Inr])
    with Cons.IH [of s'] Cons.prems Inr show ?thesis by simp
  qed
qed

lemma run_present:
  assumes "pending t s = Some r" "\<forall>e\<in>set es. \<not> registers t e"
  shows "calls_for t (snd (run es s)) = calls_for t s \<or>
         (\<exists>c. calls_for t (snd (run es s)) = calls_for t s @ [c] \<and> completion t r c)"
  using assms
proof (induction es arbitrary: s)
  case Nil
  then show ?case by simp
next
  case (Cons e es)
  show ?case
  proof (cases "step e s")
    case (Inl x)
    then show ?thesis by simp
  next
    case (Inr s')
    from Cons.prems have ne: "\<not> registers t e" and rest: "\<forall>e\<in>set es. \<not> registers t e"
      by simp_all
    from step_present [OF Cons.prems(1) ne Inr]
    consider (keep) "pending t s' = Some r" "calls_for t s' = calls_for t s"
      | (gone) "pending t s' = None" "calls_for t s' = calls_for t s"
      | (fired) c where "pending t s' = None" "calls_for t s' = calls_for t s @ [c]"
          "completion t r c"
      by auto
    then show ?thesis
    proof cases
      case keep
      with Cons.IH [OF keep(1) rest] Inr show ?thesis by simp
    next
      case gone
      with run_absent [OF gone(1) rest] Inr show ?thesis by simp
    next
      case fired
      with run_absent [OF fired(1) rest] Inr show ?thesis by auto
    qed
  qed
qed

subsection \<open>How a pending record leaves the table\<close>

lemma crossing_silent:
  assumes "pending t s = Some r" "crosses t (link r) e" "step e s = Inr s'"
  shows "pending t s' = None \<and> calls_for t s' = calls_for t s"
proof (cases e)
  case (OnMessage l' m)
  with assms show ?thesis
    by (auto simp: pending_def calls_for_def on_message_def log_def destroy_def Let_def
          map_of_delete_conv)
qed (use assms in simp_all)

lemma removal_calls:
  assumes "pending t s = Some r" "\<not> crosses t (link r) e" "\<not> registers t e"
    "step e s = Inr s'" "pending t s' = None"
  shows "\<exists>c. calls_for t s' = calls_for t s @ [c] \<and> completion t r c"
proof (cases e)
  case (OnMessage l' m)
  with assms show ?thesis
    by (auto simp: pending_def calls_for_def completion_def on_message_def log_def
          destroy_def invoke_def Let_def map_of_delete_conv split: if_splits option.splits)
next
  case (Timeout i l' ec)
  with assms show ?thesis
    by (auto simp: pending_def calls_for_def completion_def timeout_def destroy_def
          invoke_def map_of_delete_conv split: if_splits option.splits)
next
  case (Deliver n)
  with assms show ?thesis
    by (auto simp: pending_def calls_for_def completion_def deliver_def timeout_def
          destroy_def invoke_def map_of_delete_conv
          split: if_splits option.splits wait_state.splits)
next
  case (Register l' i h d)
  with assms show ?thesis
    by (auto simp: pending_def register_tracked_def log_def destroy_def Let_def
          map_of_update_conv split: option.splits)
next
  case Shutdown
  with assms show ?thesis by (auto simp: pending_def shutdown_def)
next
  case (LinkUp l')
  with assms show ?thesis by (auto simp: on_link_up_def)
next
  case (LinkDown l')
  with assms show ?thesis by (auto simp: on_link_down_def)
next
  case (Expire n)
  with assms show ?thesis by (auto simp: pending_def)
qed

lemma step_leaves:
  assumes "pending t s = Some r" "\<not> registers t e" "step e s = Inr s'"
  shows "(pending t s' = Some r \<and> calls_for t s' = calls_for t s) \<or>
         (pending t s' = None \<and> crosses t (link r) e \<and> calls_for t s' = calls_for t s) \<or>
         (pending t s' = None \<and> \<not> crosses t (link r) e \<and>
            (\<exists>c. calls_for t s' = calls_for t s @ [c] \<and> completion t r c))"
proof (cases "crosses t (link r) e")
  case True
  with crossing_silent [OF assms(1) True assms(3)] show ?thesis by simp
next
  case False
  from step_present [OF assms]
  have "(pending t s' = Some r \<and> calls_for t s' = calls_for t s) \<or> pending t s' = None"
    by auto
  with removal_calls [OF assms(1) False assms(2) assms(3)] False show ?thesis
    by auto
qed


subsection \<open>Link events\<close>

lemma run_link_events:
  assumes "\<forall>e\<in>set es. link_event e"
  shows "run es s = (None, s)"
  using assms
proof (induction es)
  case Nil
  then show ?case by simp
next
  case (Cons e es)
  then show ?case
    by (cases e) (simp_all add: on_link_up_def on_link_down_def)
qed

subsection \<open>Timers and waits\<close>

lemma length_cancel [simp]: "length (cancel tm svc) = length svc"
  by (simp add: cancel_def)

lemma bound_id_cancel [simp]:
  "n < length svc \<Longrightarrow> bound_id (cancel tm svc ! n) = bound_id (svc ! n)"
  by (simp add: cancel_def nth_list_update)

lemma waiting_cancel [simp]:
  "n < length svc \<Longrightarrow>
     state (cancel tm svc ! n) = Waiting \<longleftrightarrow> state (svc ! n) = Waiting \<and> n \<noteq> wait tm"
  by (auto simp: cancel_def nth_list_update)

lemma expired_cancel [simp]:
  "n < length svc \<Longrightarrow> state (cancel tm svc ! n) = Ready 0 \<longleftrightarrow> state (svc ! n) = Ready 0"
  by (auto simp: cancel_def nth_list_update operation_aborted_def)

lemma length_expire [simp]: "length (expire k svc) = length svc"
  by (simp add: expire_def)

lemma bound_id_expire [simp]:
  "n < length svc \<Longrightarrow> bound_id (expire k svc ! n) = bound_id (svc ! n)"
  by (simp add: expire_def nth_list_update)

lemma waiting_expire [simp]:
  "n < length svc \<Longrightarrow>
     state (expire k svc ! n) = Waiting \<longleftrightarrow> state (svc ! n) = Waiting \<and> n \<noteq> k"
  by (auto simp: expire_def nth_list_update)

lemma expired_expire:
  "n < length svc \<Longrightarrow>
     state (expire k svc ! n) = Ready 0 \<longleftrightarrow>
       state (svc ! n) = Ready 0 \<or> (n = k \<and> state (svc ! n) = Waiting)"
  by (auto simp: expire_def nth_list_update success_def)

lemma length_cancel_all [simp]:
  "length (fold (\<lambda>(k, r). cancel (timer r)) al svc) = length svc"
  by (induction al arbitrary: svc) (auto)

lemma bound_id_cancel_all [simp]:
  "n < length svc \<Longrightarrow>
     bound_id (fold (\<lambda>(k, r). cancel (timer r)) al svc ! n) = bound_id (svc ! n)"
  by (induction al arbitrary: svc) (auto)

lemma waiting_cancel_all:
  "n < length svc \<Longrightarrow>
     state (fold (\<lambda>(k, r). cancel (timer r)) al svc ! n) = Waiting \<longleftrightarrow>
       state (svc ! n) = Waiting \<and> n \<notin> (\<lambda>(k, r). wait (timer r)) ` set al"
  by (induction al arbitrary: svc) (auto)

lemma expired_cancel_all [simp]:
  "n < length svc \<Longrightarrow>
     state (fold (\<lambda>(k, r). cancel (timer r)) al svc ! n) = Ready 0 \<longleftrightarrow>
       state (svc ! n) = Ready 0"
  by (induction al arbitrary: svc) (auto)

lemma step_bounded:
  assumes "bounded s" "step e s = Inr s'"
  shows "bounded s'"
  using assms
  by (cases e)
     (auto simp: bounded_def pending_def op_defs map_of_delete_conv map_of_update_conv
                 less_Suc_eq
           split: option.splits if_splits wait_state.splits)

lemma step_owned:
  assumes "owned s" "step e s = Inr s'"
  shows "owned s'"
proof (cases e)
  case (Register l i h d)
  with assms show ?thesis
    unfolding owned_def
    by (auto simp: pending_def op_defs map_of_update_conv nth_append less_Suc_eq
          split: option.splits if_splits)
       (metis option.distinct(1))
next
  case (OnMessage l m)
  with assms show ?thesis
    by (auto simp: owned_def pending_def op_defs map_of_delete_conv
          split: option.splits if_splits)
next
  case (Timeout i l ec)
  with assms show ?thesis
    by (auto simp: owned_def pending_def op_defs map_of_delete_conv
          split: option.splits if_splits)
next
  case Shutdown
  with assms show ?thesis
    by (auto simp: owned_def pending_def op_defs waiting_cancel_all
          split: option.splits if_splits)
next
  case (LinkUp l)
  with assms show ?thesis by (simp add: op_defs)
next
  case (LinkDown l)
  with assms show ?thesis by (simp add: op_defs)
next
  case (Expire n)
  with assms show ?thesis
    by (auto simp: owned_def pending_def split: option.splits)
next
  case (Deliver n)
  with assms show ?thesis
    by (auto simp: owned_def pending_def op_defs map_of_delete_conv nth_list_update
          split: option.splits if_splits wait_state.splits)
qed


lemma initial_wf: "bounded initial \<and> owned initial"
  by (simp add: bounded_def owned_def pending_def initial_def)

lemma run_wf:
  assumes "bounded s \<and> owned s"
  shows "bounded (snd (run es s)) \<and> owned (snd (run es s))"
  using assms
proof (induction es arbitrary: s)
  case Nil
  then show ?case by simp
next
  case (Cons e es)
  show ?case
  proof (cases "step e s")
    case (Inl x)
    with Cons.prems show ?thesis by simp
  next
    case (Inr s')
    with Cons.prems have "bounded s' \<and> owned s'"
      by (blast intro: step_bounded step_owned)
    with Cons.IH [of s'] Inr show ?thesis by simp
  qed
qed

lemma reachable_wf: "bounded (snd (run es initial)) \<and> owned (snd (run es initial))"
  by (rule run_wf [OF initial_wf])

lemma step_quiet:
  assumes "quiet t s" "io_driven e" "\<not> registers t e" "step e s = Inr s'"
  shows "quiet t s' \<and> timeout_calls_for t s' = timeout_calls_for t s"
  using assms
  by (cases e)
     (auto simp: quiet_def timeout_calls_for_def op_defs nth_append nth_list_update less_Suc_eq
                 expired_expire waiting_cancel_all
           split: option.splits if_splits wait_state.splits)

lemma run_quiet:
  assumes "quiet t s" "\<forall>e\<in>set es. io_driven e \<and> \<not> registers t e"
  shows "timeout_calls_for t (snd (run es s)) = timeout_calls_for t s"
  using assms
proof (induction es arbitrary: s)
  case Nil
  then show ?case by simp
next
  case (Cons e es)
  show ?case
  proof (cases "step e s")
    case (Inl x)
    then show ?thesis by simp
  next
    case (Inr s')
    from Cons.prems have e: "io_driven e" "\<not> registers t e"
      and rest: "\<forall>e\<in>set es. io_driven e \<and> \<not> registers t e"
      by simp_all
    from step_quiet [OF Cons.prems(1) e Inr]
    have q: "quiet t s'" and c: "timeout_calls_for t s' = timeout_calls_for t s"
      by simp_all
    from Cons.IH [OF q rest] c Inr show ?thesis by simp
  qed
qed

lemma shutdown_effect:
  "\<exists>s'. shutdown s = Inr s' \<and> handlers s' = handlers s \<and> invoked s' = invoked s \<and>
     logger s' = logger s \<and> length (service s') = length (service s) \<and>
     (\<forall>n<length (service s).
        bound_id (service s' ! n) = bound_id (service s ! n) \<and>
        (state (service s' ! n) = Ready 0 \<longleftrightarrow> state (service s ! n) = Ready 0) \<and>
        (state (service s' ! n) = Waiting \<longleftrightarrow>
           state (service s ! n) = Waiting \<and>
           n \<notin> (\<lambda>(k, r). wait (timer r)) ` set (handlers s)))"
  by (simp add: shutdown_def waiting_cancel_all)

lemma shutdown_owned_no_waiting:
  assumes "owned s" "shutdown s = Inr s'" "n < length (service s')"
  shows "state (service s' ! n) \<noteq> Waiting"
proof
  assume w: "state (service s' ! n) = Waiting"
  from assms(2) have s': "service s' = fold (\<lambda>(k, r). cancel (timer r)) (handlers s) (service s)"
    by (auto simp: shutdown_def)
  with assms(3) have n: "n < length (service s)" by simp
  from w s' n have w0: "state (service s ! n) = Waiting"
    and out: "n \<notin> (\<lambda>(k, r). wait (timer r)) ` set (handlers s)"
    by (simp_all add: waiting_cancel_all)
  from assms(1) n w0 obtain r where
    r: "map_of (handlers s) (bound_id (service s ! n)) = Some r" "wait (timer r) = n"
    by (auto simp: owned_def pending_def split: option.splits)
  from r(1) have "(bound_id (service s ! n), r) \<in> set (handlers s)"
    by (rule map_of_SomeD)
  with r(2) have "n \<in> (\<lambda>(k, r). wait (timer r)) ` set (handlers s)"
    by force
  with out show False by simp
qed

subsection \<open>Registration\<close>

lemma register_effect:
  "\<exists>s'. register_tracked l t h d s = Inr s' \<and>
     pending t s' = Some \<lparr>timer = \<lparr>expiry = d, wait = length (service s)\<rparr>,
                          id' = t, link = l, handler = h\<rparr> \<and>
     invoked s' = invoked s \<and>
     length (service s') = Suc (length (service s))"
  by (auto simp: register_tracked_def pending_def log_def destroy_def cancel_def Let_def
        map_of_update_conv nth_append split: option.splits)

lemma register_arms:
  assumes "bounded s"
  shows "\<exists>s'. register_tracked l t h d s = Inr s' \<and>
     service s' ! length (service s) = \<lparr>bound_id = t, bound_link = l, state = Waiting\<rparr>"
proof (cases "pending t s")
  case None
  then show ?thesis
    by (simp add: register_tracked_def pending_def log_def Let_def)
next
  case (Some old)
  with assms have "wait (timer old) < length (service s)"
    by (simp add: bounded_def)
  with Some show ?thesis
    by (simp add: register_tracked_def pending_def log_def destroy_def cancel_def Let_def
          nth_append)
qed

lemma awaiting_reached: "run [Register linkA 1 7 50] initial = (None, awaiting)"
  by (simp add: awaiting_def op_defs example_defs)

subsection \<open>Responses and timeouts\<close>

lemma timeout_calls_filter:
  "timeout_calls_for t s = filter (\<lambda>c. arg_message c = None) (calls_for t s)"
  by (simp add: timeout_calls_for_def calls_for_def conj_commute)

lemma on_message_effect:
  assumes "pending (token m) s = Some r"
  shows "\<exists>s'. on_message l m s = Inr s' \<and> pending (token m) s' = None \<and>
           timeout_calls_for (token m) s' = timeout_calls_for (token m) s"
  using assms
  by (simp add: pending_def timeout_calls_for_def on_message_def log_def destroy_def
        invoke_def Let_def map_of_delete_conv)

lemma no_timeout_after_response:
  assumes "pending (token m) s = Some r" "\<forall>e\<in>set es. \<not> registers (token m) e"
  shows "\<exists>s1. on_message (link r) m s = Inr s1 \<and>
           timeout_calls_for (token m) (snd (run es s1)) = timeout_calls_for (token m) s"
proof -
  from on_message_effect [OF assms(1), of "link r"] obtain s1 where
    s1: "on_message (link r) m s = Inr s1" "pending (token m) s1 = None"
      "timeout_calls_for (token m) s1 = timeout_calls_for (token m) s"
    by blast
  from run_absent [OF s1(2) assms(2)]
  have "calls_for (token m) (snd (run es s1)) = calls_for (token m) s1" by blast
  then have "timeout_calls_for (token m) (snd (run es s1)) = timeout_calls_for (token m) s1"
    by (simp add: timeout_calls_filter)
  with s1 show ?thesis by simp
qed

subsection \<open>What a completion handler does\<close>

lemma timeout_cancelled: "ec \<noteq> 0 \<Longrightarrow> timeout i l ec s = Inr s"
  by (simp add: timeout_def)

lemma deliver_cancelled:
  assumes "n < length (service s)" "state (service s ! n) = Ready ec" "ec \<noteq> 0"
  shows "deliver n s = Inr (s\<lparr>service := (service s)[n := (service s ! n)\<lparr>state := Done\<rparr>]\<rparr>)"
  using assms by (simp add: deliver_def timeout_def)

lemma deliver_expired:
  assumes "n < length (service s)" "state (service s ! n) = Ready 0"
    "pending (bound_id (service s ! n)) s = Some r"
  shows "\<exists>s'. deliver n s = Inr s' \<and>
           map_of (handlers s') = (map_of (handlers s))(bound_id (service s ! n) := None) \<and>
           invoked s' = invoked s @
             [\<lparr>tracked = bound_id (service s ! n), callee = handler r,
               arg_link = bound_link (service s ! n), arg_message = None\<rparr>]"
  using assms
  by (simp add: deliver_def timeout_def pending_def destroy_def invoke_def map_of_delete_conv)

lemma deliver_expired_absent:
  assumes "n < length (service s)" "state (service s ! n) = Ready 0"
    "pending (bound_id (service s ! n)) s = None"
  shows "deliver n s = Inl out_of_range"
  using assms by (simp add: deliver_def timeout_def pending_def)

subsection \<open>Removal from the table\<close>

lemma step_removes:
  assumes "pending t s = Some r" "step e s = Inr s'"
  shows "pending t s' = None \<longleftrightarrow> removes t e s"
  using assms
  by (cases e)
     (auto simp: pending_def op_defs map_of_delete_conv map_of_update_conv
           split: option.splits if_splits wait_state.splits)

lemma consumed_absent:
  assumes "pending t s = None" "\<forall>e\<in>set es. \<not> registers t e"
  shows "consumed t es s = 0"
  using assms
proof (induction es arbitrary: s)
  case Nil
  then show ?case by simp
next
  case (Cons e es)
  show ?case
  proof (cases "step e s")
    case (Inl x)
    then show ?thesis by simp
  next
    case (Inr s')
    from Cons.prems have ne: "\<not> registers t e" by simp
    from step_absent [OF Cons.prems(1) ne Inr] have "pending t s' = None" by simp
    with Cons.IH [of s'] Cons.prems Inr show ?thesis by simp
  qed
qed

lemma consumed_once:
  assumes "\<forall>e\<in>set es. \<not> registers t e"
  shows "consumed t es s \<le> 1"
  using assms
proof (induction es arbitrary: s)
  case Nil
  then show ?case by simp
next
  case (Cons e es)
  show ?case
  proof (cases "step e s")
    case (Inl x)
    then show ?thesis by simp
  next
    case (Inr s')
    from Cons.prems have rest: "\<forall>e\<in>set es. \<not> registers t e" by simp
    show ?thesis
    proof (cases "pending t s' = None")
      case True
      from consumed_absent [OF True rest] Inr show ?thesis by simp
    next
      case False
      with Cons.IH [OF rest, of s'] Inr show ?thesis by auto
    qed
  qed
qed

subsection \<open>Shutdown\<close>

lemma waits_of_nth:
  assumes "n < length (service s)" "bound_id (service s ! n) = t"
  shows "state (service s ! n) \<in> set (waits_of t s)"
  using assms by (auto simp: waits_of_def intro!: image_eqI [where x = "service s ! n"])

lemma shutdown_quiet:
  assumes "owned s" "Ready 0 \<notin> set (waits_of t s)" "shutdown s = Inr s'"
  shows "quiet t s'"
  unfolding quiet_def
proof (intro allI impI conjI)
  fix n
  assume n: "n < length (service s')" and b: "bound_id (service s' ! n) = t"
  from assms(3) have s': "service s' = fold (\<lambda>(k, r). cancel (timer r)) (handlers s) (service s)"
    by (auto simp: shutdown_def)
  from n s' have n0: "n < length (service s)" by simp
  from b s' n0 have b0: "bound_id (service s ! n) = t" by simp
  show "state (service s' ! n) \<noteq> Waiting"
    by (rule shutdown_owned_no_waiting [OF assms(1) assms(3) n])
  from waits_of_nth [OF n0 b0] assms(2) have "state (service s ! n) \<noteq> Ready 0"
    by auto
  with s' n0 show "state (service s' ! n) \<noteq> Ready 0" by simp
qed

section \<open>The claims\<close>




text \<open>
  C2. When \<open>on_message(link, message)\<close> finds a pending record for the message's token, it
  returns normally with that record removed from the table and every other record kept.
  If \<open>link\<close> differs from the record's link, no handler is called and the mismatch is
  logged as a warning; if it is the record's link, the record's handler is called once,
  with \<open>link\<close> and the message.
\<close>

theorem on_message_cross_link:
  assumes "pending (token m) s = Some r"
  shows "\<exists>s'. on_message l m s = Inr s' \<and>
           map_of (handlers s') = (map_of (handlers s))(token m := None) \<and>
           pending (token m) s' = None \<and>
           invoked s' =
             (if l = link r
              then invoked s @ [\<lparr>tracked = token m, callee = handler r, arg_link = l,
                                  arg_message = Some m\<rparr>]
              else invoked s) \<and>
           logger s' =
             (if l = link r
              then logger s @ [(TRACE, ''on_message'')]
              else logger s @ [(TRACE, ''on_message''),
                               (WARN, ''[spark] Tracked message receipient != sender'')])"
  using assms
  by (simp add: pending_def on_message_def log_def destroy_def invoke_def Let_def
                map_of_delete_conv)

theorem on_message_cross_link_witness:
  "pending (token reply) (snd (run [Register linkA 1 7 50] initial)) = Some requestA \<and>
   (\<exists>s'. on_message linkB reply (snd (run [Register linkA 1 7 50] initial)) = Inr s' \<and>
      pending 1 s' = None \<and> invoked s' = []) \<and>
   (\<exists>s'. on_message linkA reply (snd (run [Register linkA 1 7 50] initial)) = Inr s' \<and>
      pending 1 s' = None \<and>
      invoked s' = [\<lparr>tracked = 1, callee = 7, arg_link = linkA, arg_message = Some reply\<rparr>])"
proof -
  let ?s = "snd (run [Register linkA 1 7 50] initial)"
  have p: "pending (token reply) ?s = Some requestA"
    by (simp add: pending_def register_tracked_def log_def example_defs Let_def)
  have i: "invoked ?s = []"
    by (simp add: register_tracked_def log_def example_defs Let_def)
  have t: "token reply = 1" "link requestA = linkA" "handler requestA = 7" "linkB \<noteq> linkA"
    by (simp_all add: example_defs)
  from on_message_cross_link [OF p, of linkB] on_message_cross_link [OF p, of linkA] p i t
  show ?thesis by auto
qed

text \<open>
  C3. The claim is that no operation lets an exception out. \<open>timeout\<close> does: called with a
  clear error code for a token that has no pending record, \<open>handlers_.at(id)\<close> throws
  \<open>std::out_of_range\<close>, which \<open>on_message\<close> catches and \<open>timeout\<close> does not. The program
  gets there when the deadline passes, the completion is queued, and the response is
  processed before the queued completion runs.
\<close>

theorem timeout_lets_out_of_range_escape:
  "run [Register linkA 1 7 50, Expire 0, OnMessage linkA reply] initial =
     (None, \<lparr>service = [\<lparr>bound_id = 1, bound_link = linkA, state = Ready 0\<rparr>],
             logger = [(TRACE, ''register_tracked''), (TRACE, ''on_message'')],
             handlers = [],
             invoked = [\<lparr>tracked = 1, callee = 7, arg_link = linkA,
                         arg_message = Some reply\<rparr>]\<rparr>) \<and>
   timeout 1 linkA 0
     (snd (run [Register linkA 1 7 50, Expire 0, OnMessage linkA reply] initial)) =
     Inl out_of_range \<and>
   fst (run [Register linkA 1 7 50, Expire 0, OnMessage linkA reply, Deliver 0] initial) =
     Some out_of_range"
  by (simp add: op_defs example_defs)

text \<open>
  C4. The claim is that \<open>timeout\<close> does nothing when the timer was cancelled because the
  response arrived first. It does so when the cancellation comes before the deadline:
  the wait completes with \<open>operation_aborted\<close> and \<open>timeout\<close> returns at once. When the
  deadline has passed and the completion is queued, the response that arrives then
  erases the record and destroys the timer, but the queued completion keeps its clear
  error code: \<open>timeout\<close> goes on to \<open>handlers_.at(id)\<close>, which throws \<open>std::out_of_range\<close>,
  and nothing catches it. No handler is called a second time; the operation does not
  return.
\<close>

theorem timeout_after_late_response_throws:
  "run [Register linkA 1 7 50, Expire 0, OnMessage linkA reply] initial =
     (None, \<lparr>service = [\<lparr>bound_id = 1, bound_link = linkA, state = Ready 0\<rparr>],
             logger = [(TRACE, ''register_tracked''), (TRACE, ''on_message'')],
             handlers = [],
             invoked = [\<lparr>tracked = 1, callee = 7, arg_link = linkA,
                         arg_message = Some reply\<rparr>]\<rparr>) \<and>
   deliver 0 (snd (run [Register linkA 1 7 50, Expire 0, OnMessage linkA reply] initial)) =
     Inl out_of_range \<and>
   run [Register linkA 1 7 50, OnMessage linkA reply, Expire 0, Deliver 0] initial =
     (None, \<lparr>service = [\<lparr>bound_id = 1, bound_link = linkA, state = Done\<rparr>],
             logger = [(TRACE, ''register_tracked''), (TRACE, ''on_message'')],
             handlers = [],
             invoked = [\<lparr>tracked = 1, callee = 7, arg_link = linkA,
                         arg_message = Some reply\<rparr>]\<rparr>)"
  by (simp add: op_defs example_defs)

text \<open>
  C5. \<open>on_message(link, message)\<close> with a token that has no pending record returns
  normally; it calls no handler and leaves the table, and every timer, as they are: all
  it does is log, at trace and at debug level.
\<close>

theorem on_message_unknown_token:
  assumes "pending (token m) s = None"
  shows "on_message l m s =
           Inr (s\<lparr>logger := logger s @ [(TRACE, ''on_message''),
                  (DEBUG, ''[spark] Received invalid or expired tracked message'')]\<rparr>)"
  using assms by (simp add: pending_def on_message_def log_def Let_def)

theorem on_message_unknown_token_witness:
  "pending (token reply) initial = None \<and>
   on_message linkA reply initial =
     Inr (initial\<lparr>logger := [(TRACE, ''on_message''),
            (DEBUG, ''[spark] Received invalid or expired tracked message'')]\<rparr>)"
proof -
  have p: "pending (token reply) initial = None"
    by (simp add: pending_def initial_def)
  from on_message_unknown_token [OF p, of linkA] p show ?thesis
    by (simp add: initial_def)
qed

text \<open>
  C6. The claim is that the record made by \<open>register_tracked\<close> is consumed exactly once,
  by a response, by the timeout or by the cancellation of \<open>shutdown\<close>. \<open>shutdown\<close> only
  cancels timers: after it, and after the cancelled wait has run, the record is still
  pending, no event of the run has consumed it, and a response that arrives then is
  still delivered to the handler.
\<close>

theorem shutdown_leaves_record:
  "run [Register linkA 1 7 50, Shutdown, Deliver 0] initial =
     (None, awaiting\<lparr>service := [\<lparr>bound_id = 1, bound_link = linkA, state = Done\<rparr>]\<rparr>) \<and>
   pending 1 (snd (run [Register linkA 1 7 50, Shutdown, Deliver 0] initial)) = Some requestA \<and>
   consumed 1 [Shutdown, Deliver 0] awaiting = 0 \<and>
   invoked (snd (run [Register linkA 1 7 50, Shutdown, Deliver 0, OnMessage linkA reply]
                  initial)) =
     [\<lparr>tracked = 1, callee = 7, arg_link = linkA, arg_message = Some reply\<rparr>]"
  by (simp add: awaiting_def pending_def op_defs example_defs)

text \<open>
  C6, as amended. After \<open>register_tracked(link, token, callback, timeout)\<close> returns, on a
  service reached from a new one, the table has a record for the token with \<open>link\<close>,
  \<open>callback\<close> and a timer of \<open>timeout\<close> whose wait is outstanding, bound to the token and
  the link. Over any sequence of events that does not register the token again the
  record is taken out of the table at most once. An event takes a pending record out
  exactly when it is a message carrying the token (on any link), a call of \<open>timeout\<close> for
  the token with a clear error code, or the run of such a queued completion. \<open>shutdown\<close>
  leaves the record pending.
\<close>

theorem register_tracked_post:
  assumes "s = snd (run es0 initial)" "\<forall>e\<in>set es. \<not> registers t e"
  shows "\<exists>s'. register_tracked l t h d s = Inr s' \<and>
           pending t s' = Some \<lparr>timer = \<lparr>expiry = d, wait = length (service s)\<rparr>,
                                id' = t, link = l, handler = h\<rparr> \<and>
           service s' ! length (service s) =
             \<lparr>bound_id = t, bound_link = l, state = Waiting\<rparr> \<and>
           consumed t es s' \<le> 1 \<and>
           (\<forall>e s1 s2. pending t s1 \<noteq> None \<and> step e s1 = Inr s2 \<longrightarrow>
              (pending t s2 = None) = removes t e s1) \<and>
           (\<exists>s2. shutdown s' = Inr s2 \<and> pending t s2 = pending t s')"
proof -
  from assms(1) reachable_wf [of es0] have b: "bounded s" by simp
  from register_effect [of l t h d s] register_arms [OF b, of l t h d]
  obtain s' where
    s': "register_tracked l t h d s = Inr s'"
      "pending t s' = Some \<lparr>timer = \<lparr>expiry = d, wait = length (service s)\<rparr>,
                                id' = t, link = l, handler = h\<rparr>"
      "service s' ! length (service s) = \<lparr>bound_id = t, bound_link = l, state = Waiting\<rparr>"
    by auto
  have c: "consumed t es s' \<le> 1" by (rule consumed_once [OF assms(2)])
  have r: "\<forall>e s1 s2. pending t s1 \<noteq> None \<and> step e s1 = Inr s2 \<longrightarrow>
              (pending t s2 = None) = removes t e s1"
    using step_removes by blast
  have sh: "\<exists>s2. shutdown s' = Inr s2 \<and> pending t s2 = pending t s'"
    by (simp add: shutdown_def pending_def)
  from s' c r sh show ?thesis by blast
qed

theorem register_tracked_post_witness:
  "\<not> registers 1 (OnMessage linkB reply) \<and> \<not> registers 1 (Deliver 0) \<and>
   (\<exists>s'. register_tracked linkA 1 7 50 initial = Inr s' \<and>
      pending 1 s' = Some requestA \<and>
      service s' ! 0 = \<lparr>bound_id = 1, bound_link = linkA, state = Waiting\<rparr> \<and>
      consumed 1 [OnMessage linkB reply, Deliver 0] s' \<le> 1 \<and>
      removes 1 (OnMessage linkB reply) s' \<and>
      (\<exists>s2. step (OnMessage linkB reply) s' = Inr s2 \<and> pending 1 s2 = None) \<and>
      (\<exists>s2. shutdown s' = Inr s2 \<and> pending 1 s2 = Some requestA))"
proof -
  have i: "initial = snd (run [] initial)" by simp
  have e: "\<forall>e\<in>set [OnMessage linkB reply, Deliver 0]. \<not> registers 1 e" by simp
  have r: "register_tracked linkA 1 7 50 initial = Inr awaiting"
    using awaiting_reached by (simp split: sum.splits)
  have q: "requestA = \<lparr>timer = \<lparr>expiry = 50, wait = length (service initial)\<rparr>,
                        id' = 1, link = linkA, handler = 7\<rparr>"
    by (simp add: requestA_def initial_def)
  have m: "removes 1 (OnMessage linkB reply) awaiting" by (simp add: reply_def)
  have st: "\<exists>s2. step (OnMessage linkB reply) awaiting = Inr s2"
    by (simp add: on_message_def Let_def split: option.splits)
  have l: "length (service initial) = 0" by (simp add: initial_def)
  have p: "pending 1 awaiting = Some requestA"
    by (simp add: pending_def awaiting_def)
  from st obtain s2 where s2: "step (OnMessage linkB reply) awaiting = Inr s2" by blast
  from register_tracked_post [OF i e, of linkA 7 50] obtain s' where
    A: "register_tracked linkA 1 7 50 initial = Inr s'" and
    B: "pending 1 s' = Some \<lparr>timer = \<lparr>expiry = 50, wait = length (service initial)\<rparr>,
                                id' = 1, link = linkA, handler = 7\<rparr>" and
    C: "service s' ! length (service initial) =
          \<lparr>bound_id = 1, bound_link = linkA, state = Waiting\<rparr>" and
    D: "consumed 1 [OnMessage linkB reply, Deliver 0] s' \<le> 1" and
    R: "\<forall>e s1 s2. pending 1 s1 \<noteq> None \<and> step e s1 = Inr s2 \<longrightarrow>
              (pending 1 s2 = None) = removes 1 e s1" and
    S: "\<exists>s2. shutdown s' = Inr s2 \<and> pending 1 s2 = pending 1 s'"
    by blast
  from A r have eq: "s' = awaiting" by simp
  from R p s2 m have n: "pending 1 s2 = None" by blast
  from A B C D S eq s2 n m q l p show ?thesis
    by auto
qed

text \<open>
  C7. The claim is that after \<open>shutdown\<close> no timeout callback of a token pending at that
  moment ever fires. A wait whose deadline has passed has its completion queued with a
  clear error code, and cancelling the timer does not change it: the record is still
  pending at \<open>shutdown\<close>, and the completion that runs afterwards calls the handler with
  \<open>boost::none\<close>.
\<close>

theorem expired_timer_fires_after_shutdown:
  "run [Register linkA 1 7 50, Expire 0, Shutdown] initial =
     (None, awaiting\<lparr>service := [\<lparr>bound_id = 1, bound_link = linkA, state = Ready 0\<rparr>]\<rparr>) \<and>
   pending 1 (snd (run [Register linkA 1 7 50, Expire 0, Shutdown] initial)) = Some requestA \<and>
   invoked (snd (run [Register linkA 1 7 50, Expire 0, Shutdown] initial)) = [] \<and>
   invoked (snd (run [Register linkA 1 7 50, Expire 0, Shutdown, Deliver 0] initial)) =
     [\<lparr>tracked = 1, callee = 7, arg_link = linkA, arg_message = None\<rparr>]"
  by (simp add: awaiting_def pending_def op_defs example_defs)

text \<open>
  C7, as amended. On a service reached from a new one, \<open>shutdown\<close> returns normally,
  calls no handler and leaves the table as it is; after it no wait is outstanding: the
  timer of every pending record is cancelled. If no completion bound to a token was
  already queued as expired at that moment, then after \<open>shutdown\<close> no handler is called
  with \<open>boost::none\<close> for that token, over any sequence of events in which \<open>timeout\<close> is
  called by the \<open>io_service\<close> only and the token is not registered again. And a token
  that has no pending record (its callback has fired) gets no further call, over any
  sequence of events that does not register it again.
\<close>

theorem shutdown_cancels_timers:
  assumes "s = snd (run es0 initial)"
  shows "\<exists>s'. shutdown s = Inr s' \<and>
           handlers s' = handlers s \<and> invoked s' = invoked s \<and>
           Waiting \<notin> state ` set (service s') \<and>
           (Ready 0 \<notin> set (waits_of t s) \<and> (\<forall>e\<in>set es. io_driven e \<and> \<not> registers t e) \<longrightarrow>
              timeout_calls_for t (snd (run es s')) = timeout_calls_for t s) \<and>
           (pending t s = None \<and> (\<forall>e\<in>set es. \<not> registers t e) \<longrightarrow>
              calls_for t (snd (run es s')) = calls_for t s)"
proof -
  from assms reachable_wf [of es0] have o: "owned s" by simp
  from shutdown_effect [of s] obtain s' where
    s': "shutdown s = Inr s'" "handlers s' = handlers s" "invoked s' = invoked s"
    by blast
  have w: "Waiting \<notin> state ` set (service s')"
  proof
    assume "Waiting \<in> state ` set (service s')"
    then obtain n where "n < length (service s')" "state (service s' ! n) = Waiting"
      by (auto simp: in_set_conv_nth)
    with shutdown_owned_no_waiting [OF o s'(1)] show False by blast
  qed
  have a: "timeout_calls_for t (snd (run es s')) = timeout_calls_for t s"
    if "Ready 0 \<notin> set (waits_of t s) \<and> (\<forall>e\<in>set es. io_driven e \<and> \<not> registers t e)"
  proof -
    from that shutdown_quiet [OF o _ s'(1)] have "quiet t s'" by blast
    from run_quiet [OF this] that
    have "timeout_calls_for t (snd (run es s')) = timeout_calls_for t s'" by blast
    with s'(3) show ?thesis by (simp add: timeout_calls_for_def)
  qed
  have b: "calls_for t (snd (run es s')) = calls_for t s"
    if "pending t s = None \<and> (\<forall>e\<in>set es. \<not> registers t e)"
  proof -
    from that s'(2) have "pending t s' = None" by (simp add: pending_def)
    from run_absent [OF this] that
    have "calls_for t (snd (run es s')) = calls_for t s'" by blast
    with s'(3) show ?thesis by (simp add: calls_for_def)
  qed
  from s' w a b show ?thesis by blast
qed

theorem shutdown_cancels_timers_witness:
  "awaiting = snd (run [Register linkA 1 7 50] initial) \<and>
   Ready 0 \<notin> set (waits_of 1 awaiting) \<and> pending 2 awaiting = None \<and>
   (\<exists>s'. shutdown awaiting = Inr s' \<and> handlers s' = handlers awaiting \<and> invoked s' = [] \<and>
      Waiting \<notin> state ` set (service s') \<and>
      timeout_calls_for 1 (snd (run [Expire 0, Deliver 0, OnMessage linkA reply] s')) = [] \<and>
      calls_for 2 (snd (run [Expire 0, Deliver 0, Timeout 2 linkA 125] s')) = [])"
proof -
  let ?es = "[Expire 0, Deliver 0, OnMessage linkA reply]"
  let ?fs = "[Expire 0, Deliver 0, Timeout 2 linkA 125]"
  have r: "awaiting = snd (run [Register linkA 1 7 50] initial)"
    by (subst awaiting_reached) simp
  have q: "Ready 0 \<notin> set (waits_of 1 awaiting)"
    by (simp add: waits_of_def awaiting_def)
  have p: "pending 2 awaiting = None"
    by (simp add: pending_def awaiting_def)
  have e: "\<forall>e\<in>set ?es. io_driven e \<and> \<not> registers 1 e" by simp
  have f: "\<forall>e\<in>set ?fs. \<not> registers 2 e" by simp
  have i: "invoked awaiting = []" "timeout_calls_for 1 awaiting = []" "calls_for 2 awaiting = []"
    by (simp_all add: awaiting_def timeout_calls_for_def calls_for_def)
  from shutdown_cancels_timers [OF r, of 1 ?es] q e i
  have 1: "\<exists>s'. shutdown awaiting = Inr s' \<and> handlers s' = handlers awaiting \<and>
      invoked s' = [] \<and> Waiting \<notin> state ` set (service s') \<and>
      timeout_calls_for 1 (snd (run ?es s')) = []"
    by auto
  from shutdown_cancels_timers [OF r, of 2 ?fs] p f i
  have 2: "\<exists>s'. shutdown awaiting = Inr s' \<and> calls_for 2 (snd (run ?fs s')) = []"
    by auto
  from 1 2 r q p show ?thesis by auto
qed

text \<open>
  C8. The claim is that link events leave the table and the timers alone, and that a
  request whose link has closed is resolved only by a matching response, by its timeout
  or by \<open>shutdown\<close>. The first part holds. After the link has gone down a message that
  carries the token on another link takes the record out of the table without a call,
  and \<open>shutdown\<close> resolves nothing: the record is still pending after it.
\<close>

theorem closed_link_record_fate:
  "run [Register linkA 1 7 50, LinkDown linkA, OnMessage linkB reply] initial =
     (None, \<lparr>service = [\<lparr>bound_id = 1, bound_link = linkA, state = Ready operation_aborted\<rparr>],
             logger = [(TRACE, ''register_tracked''), (TRACE, ''on_message''),
                       (WARN, ''[spark] Tracked message receipient != sender'')],
             handlers = [], invoked = []\<rparr>) \<and>
   run [Register linkA 1 7 50, LinkDown linkA, Shutdown, Deliver 0] initial =
     (None, awaiting\<lparr>service := [\<lparr>bound_id = 1, bound_link = linkA, state = Done\<rparr>]\<rparr>) \<and>
   pending 1 (snd (run [Register linkA 1 7 50, LinkDown linkA, Shutdown, Deliver 0] initial)) =
     Some requestA"
  by (simp add: awaiting_def pending_def op_defs example_defs)

text \<open>
  C8, as amended. \<open>on_link_up\<close> and \<open>on_link_down\<close> return the service as it was, for
  every link, and so does any sequence of link events: no record is completed, expired
  or removed and no timer is touched. A request that is pending after such events
  leaves the table exactly by a message carrying its token, by a call of \<open>timeout\<close> for
  its token with a clear error code, or by the run of such a queued completion. When it
  leaves, exactly one call is made to its handler (with \<open>boost::none\<close>, or with the message
  when that arrived on the request's link), except that a message on another link
  removes it without a call. \<open>shutdown\<close> calls no handler and leaves it pending.
\<close>

theorem link_events_frame:
  assumes "\<forall>e\<in>set es. link_event e"
  shows "on_link_up l s = Inr s \<and> on_link_down l s = Inr s \<and> run es s = (None, s) \<and>
         (pending t (snd (run es s)) = Some r \<longrightarrow>
            (\<forall>e s'. step e (snd (run es s)) = Inr s' \<and> \<not> registers t e \<longrightarrow>
               (pending t s' = None) = removes t e (snd (run es s)) \<and>
               ((pending t s' = Some r \<and> calls_for t s' = calls_for t s) \<or>
                (pending t s' = None \<and> crosses t (link r) e \<and>
                   calls_for t s' = calls_for t s) \<or>
                (pending t s' = None \<and> \<not> crosses t (link r) e \<and>
                   (\<exists>c. calls_for t s' = calls_for t s @ [c] \<and> tracked c = t \<and>
                      callee c = handler r \<and>
                      (case arg_message c of None \<Rightarrow> True
                       | Some m \<Rightarrow> token m = t \<and> arg_link c = link r))))) \<and>
            (\<exists>s'. shutdown (snd (run es s)) = Inr s' \<and> pending t s' = Some r \<and>
               invoked s' = invoked s))"
proof -
  have f: "run es s = (None, s)" by (rule run_link_events [OF assms])
  have a: "(pending t s' = None) = removes t e s \<and>
           ((pending t s' = Some r \<and> calls_for t s' = calls_for t s) \<or>
            (pending t s' = None \<and> crosses t (link r) e \<and> calls_for t s' = calls_for t s) \<or>
            (pending t s' = None \<and> \<not> crosses t (link r) e \<and>
               (\<exists>c. calls_for t s' = calls_for t s @ [c] \<and> tracked c = t \<and>
                  callee c = handler r \<and>
                  (case arg_message c of None \<Rightarrow> True
                   | Some m \<Rightarrow> token m = t \<and> arg_link c = link r))))"
    if "pending t s = Some r" "step e s = Inr s'" "\<not> registers t e" for e s'
    using step_removes [OF that(1) that(2)] step_leaves [OF that(1) that(3) that(2)]
    by (simp add: completion_def)
  have b: "\<exists>s'. shutdown s = Inr s' \<and> pending t s' = Some r \<and> invoked s' = invoked s"
    if "pending t s = Some r"
    using that by (simp add: shutdown_def pending_def)
  from a b show ?thesis
    by (simp add: f on_link_up_def on_link_down_def)
qed

theorem link_events_frame_witness:
  "link_event (LinkDown linkA) \<and> link_event (LinkUp linkB) \<and>
   \<not> registers 1 (OnMessage linkA reply) \<and> \<not> registers 1 (OnMessage linkB reply) \<and>
   run [LinkDown linkA, LinkUp linkB] awaiting = (None, awaiting) \<and>
   pending 1 awaiting = Some requestA \<and>
   (\<exists>s'. step (OnMessage linkA reply) awaiting = Inr s' \<and> pending 1 s' = None \<and>
      calls_for 1 s' = [\<lparr>tracked = 1, callee = 7, arg_link = linkA, arg_message = Some reply\<rparr>]) \<and>
   (\<exists>s'. step (OnMessage linkB reply) awaiting = Inr s' \<and> pending 1 s' = None \<and>
      calls_for 1 s' = []) \<and>
   (\<exists>s'. shutdown awaiting = Inr s' \<and> pending 1 s' = Some requestA \<and> invoked s' = [])"
proof -
  let ?es = "[LinkDown linkA, LinkUp linkB]"
  have h: "\<forall>e\<in>set ?es. link_event e" by simp
  have p: "pending 1 awaiting = Some requestA"
    by (simp add: pending_def awaiting_def)
  have i: "invoked awaiting = []" "calls_for 1 awaiting = []"
    by (simp_all add: awaiting_def calls_for_def)
  from link_events_frame [OF h, of linkA awaiting 1 requestA]
  have f: "run ?es awaiting = (None, awaiting)" by blast
  from link_events_frame [OF h, of linkA awaiting 1 requestA] p
  have g: "\<forall>e s'. step e awaiting = Inr s' \<and> \<not> registers 1 e \<longrightarrow>
             (pending 1 s' = None) = removes 1 e awaiting"
    and k: "\<exists>s'. shutdown awaiting = Inr s' \<and> pending 1 s' = Some requestA \<and>
              invoked s' = invoked awaiting"
    unfolding f by simp_all
  have sa: "\<exists>s'. step (OnMessage linkA reply) awaiting = Inr s' \<and>
      calls_for 1 s' = [\<lparr>tracked = 1, callee = 7, arg_link = linkA, arg_message = Some reply\<rparr>]"
    by (simp add: awaiting_def calls_for_def op_defs example_defs)
  have sb: "\<exists>s'. step (OnMessage linkB reply) awaiting = Inr s' \<and> calls_for 1 s' = []"
    by (simp add: awaiting_def calls_for_def op_defs example_defs)
  have m: "removes 1 (OnMessage linkA reply) awaiting" "removes 1 (OnMessage linkB reply) awaiting"
    by (simp_all add: reply_def)
  from g sa m have 1: "\<exists>s'. step (OnMessage linkA reply) awaiting = Inr s' \<and> pending 1 s' = None \<and>
      calls_for 1 s' = [\<lparr>tracked = 1, callee = 7, arg_link = linkA, arg_message = Some reply\<rparr>]"
    by (metis registers.simps(2))
  from g sb m have 2: "\<exists>s'. step (OnMessage linkB reply) awaiting = Inr s' \<and> pending 1 s' = None \<and>
      calls_for 1 s' = []"
    by (metis registers.simps(2))
  from f p 1 2 k i show ?thesis by simp
qed

text \<open>
  C9. \<open>register_tracked\<close> for a token that already has a pending record returns normally
  and calls no handler; the table then holds the new record under the token and every
  other record as before, and the wait of the replaced record's timer is no longer
  outstanding. Over any sequence of events that does not register the token again, at
  most one call is made for the token and it is made to the new handler: the replaced
  record's handler, when it is another one, is not called for the token again.
\<close>

theorem duplicate_registration_replaces:
  assumes "pending t s = Some old" "\<forall>e\<in>set es. \<not> registers t e"
  shows "\<exists>s'. register_tracked l t h d s = Inr s' \<and>
           map_of (handlers s') =
             (map_of (handlers s))(t \<mapsto> \<lparr>timer = \<lparr>expiry = d, wait = length (service s)\<rparr>,
                                          id' = t, link = l, handler = h\<rparr>) \<and>
           invoked s' = invoked s \<and>
           (wait (timer old) < length (service s) \<longrightarrow>
              state (service s' ! wait (timer old)) \<noteq> Waiting) \<and>
           (calls_for t (snd (run es s')) = calls_for t s \<or>
            (\<exists>c. calls_for t (snd (run es s')) = calls_for t s @ [c] \<and> callee c = h)) \<and>
           (handler old \<noteq> h \<longrightarrow>
              filter (\<lambda>c. callee c = handler old) (calls_for t (snd (run es s'))) =
              filter (\<lambda>c. callee c = handler old) (calls_for t s))"
proof -
  let ?new = "\<lparr>timer = \<lparr>expiry = d, wait = length (service s)\<rparr>,
                id' = t, link = l, handler = h\<rparr>"
  from assms(1) have "\<exists>s'. register_tracked l t h d s = Inr s' \<and>
      map_of (handlers s') = (map_of (handlers s))(t \<mapsto> ?new) \<and>
      invoked s' = invoked s \<and>
      (wait (timer old) < length (service s) \<longrightarrow>
         state (service s' ! wait (timer old)) \<noteq> Waiting)"
    by (auto simp: register_tracked_def pending_def log_def destroy_def cancel_def Let_def
          map_of_update_conv nth_append nth_list_update)
  then obtain s' where
    s': "register_tracked l t h d s = Inr s'"
      "map_of (handlers s') = (map_of (handlers s))(t \<mapsto> ?new)"
      "invoked s' = invoked s"
      "wait (timer old) < length (service s) \<longrightarrow>
         state (service s' ! wait (timer old)) \<noteq> Waiting"
    by blast
  from s'(2) have p: "pending t s' = Some ?new" by (simp add: pending_def)
  from s'(3) have c: "calls_for t s' = calls_for t s" by (simp add: calls_for_def)
  from run_present [OF p assms(2)] c
  have x: "calls_for t (snd (run es s')) = calls_for t s \<or>
      (\<exists>c. calls_for t (snd (run es s')) = calls_for t s @ [c] \<and> callee c = h)"
    by (auto simp: completion_def)
  then have y: "handler old \<noteq> h \<longrightarrow>
      filter (\<lambda>c. callee c = handler old) (calls_for t (snd (run es s'))) =
      filter (\<lambda>c. callee c = handler old) (calls_for t s)"
    by auto
  from s' x y show ?thesis by blast
qed

theorem duplicate_registration_replaces_witness:
  "pending 1 awaiting = Some requestA \<and>
   \<not> registers 1 (Deliver 0) \<and> \<not> registers 1 (OnMessage linkB reply) \<and>
   (\<exists>s'. register_tracked linkB 1 8 20 awaiting = Inr s' \<and>
      pending 1 s' = Some \<lparr>timer = \<lparr>expiry = 20, wait = 1\<rparr>, id' = 1, link = linkB,
                            handler = 8\<rparr> \<and>
      invoked s' = [] \<and>
      state (service s' ! 0) \<noteq> Waiting \<and>
      calls_for 1 (snd (run [Deliver 0, OnMessage linkB reply] s')) =
        [\<lparr>tracked = 1, callee = 8, arg_link = linkB, arg_message = Some reply\<rparr>])"
proof -
  let ?es = "[Deliver 0, OnMessage linkB reply]"
  have p: "pending 1 awaiting = Some requestA"
    by (simp add: pending_def awaiting_def)
  have e: "\<forall>e\<in>set ?es. \<not> registers 1 e" by simp
  have i: "invoked awaiting = []" "length (service awaiting) = 1" "wait (timer requestA) = 0"
    by (simp_all add: awaiting_def requestA_def)
  have c: "calls_for 1 (snd (run ?es s')) =
        [\<lparr>tracked = 1, callee = 8, arg_link = linkB, arg_message = Some reply\<rparr>]"
    if "register_tracked linkB 1 8 20 awaiting = Inr s'" for s'
    using that by (auto simp: awaiting_def op_defs example_defs calls_for_def)
  from duplicate_registration_replaces [OF p e, of linkB 8 20] i c p
  show ?thesis
    by (auto simp: pending_def)
qed

section \<open>Properties of the realm service\<close>

text \<open>
  C10. The claim is that \<open>handle_realm_status\<close> never reads through an absent \<open>name\<close> or
  \<open>ip\<close> and adds nothing when \<open>name\<close>, \<open>id\<close> or \<open>ip\<close> is absent. The function tests the
  three fields, logs, and goes on: with \<open>name\<close> absent it reads through the null pointer,
  and with \<open>id\<close> absent it adds the realm and records the link.
\<close>

theorem handle_realm_status_goes_on:
  "handle_realm_status linkA nameless no_realms = Inl null_dereference \<and>
   handle_realm_status linkA idless no_realms =
     Inr \<lparr>realms = [0 \<mapsto> \<lparr>realm_id = 0, realm_ip = ''10.0.0.1'', realm_name = ''realm'',
                          realm_population = 0, realm_type = 0, realm_flags = 0,
                          realm_timezone = 0\<rparr>],
          known_realms = [10 \<mapsto> 0],
          realm_log = [(TRACE, ''handle_realm_status''), (DEBUG, ''Failed'')]\<rparr>"
  by (simp add: handle_realm_status_def nameless_def idless_def no_realms_def add_realm_def
                linkA_def Let_def)

end

